theory Spec2Isabelle
  imports Complex_Main "HOL-Library.Sublist" "HOL-Library.Product_Lexorder"
begin

section \<open>Python strings\<close>

text \<open>
  A Python \<open>str\<close> is a sequence of Unicode code points. A character is modelled by its
  code point, so that every Python string is a value of the model.
\<close>

type_synonym pychar = nat
type_synonym pystr = "pychar list"

definition ustr :: "string \<Rightarrow> pystr" where
  "ustr s = map of_char s"

text \<open>
  \<open>str.isspace\<close> on one character, which is also the class \<open>\s\<close> of a \<open>str\<close> pattern
  in \<open>re\<close>: U+0009..U+000D, U+001C..U+0020, U+0085, U+00A0, U+1680, U+2000..U+200A,
  U+2028, U+2029, U+202F, U+205F, U+3000.
\<close>

definition isspace :: "pychar \<Rightarrow> bool" where
  "isspace c = ((9 \<le> c \<and> c \<le> 13) \<or> (28 \<le> c \<and> c \<le> 32) \<or> c = 133 \<or> c = 160 \<or> c = 5760
     \<or> (8192 \<le> c \<and> c \<le> 8202) \<or> c = 8232 \<or> c = 8233 \<or> c = 8239 \<or> c = 8287 \<or> c = 12288)"

text \<open>The character class \<open>[.!?]\<close> of the pattern in \<open>chunk_text\<close>.\<close>

definition is_terminal :: "pychar \<Rightarrow> bool" where
  "is_terminal c = (c = 46 \<or> c = 33 \<or> c = 63)"

text \<open>\<open>s.strip()\<close>: leading and trailing whitespace removed.\<close>

definition strip :: "pystr \<Rightarrow> pystr" where
  "strip s = rev (dropWhile isspace (rev (dropWhile isspace s)))"

text \<open>\<open>sep.join(xs)\<close>.\<close>

fun join :: "pystr \<Rightarrow> pystr list \<Rightarrow> pystr" where
  "join sep [] = []"
| "join sep [x] = x"
| "join sep (x # y # ys) = x @ sep @ join sep (y # ys)"

text \<open>
  \<open>xs[i:j]\<close> for Python integers: a negative bound counts from the end, and both bounds
  are clamped to \<open>0..len(xs)\<close>.
\<close>

definition slice_bound :: "nat \<Rightarrow> int \<Rightarrow> nat" where
  "slice_bound n k = (if k < 0 then nat (max (k + int n) 0) else min (nat k) n)"

definition py_slice :: "'a list \<Rightarrow> int \<Rightarrow> int \<Rightarrow> 'a list" where
  "py_slice xs i j =
     (let lo = slice_bound (length xs) i; hi = slice_bound (length xs) j
      in take (hi - lo) (drop lo xs))"

section \<open>chunking.py\<close>

text \<open>
  \<open>re.split(r'(?<=[.!?])\s+', text)\<close>. A match starts at the first position whose
  previous character is one of \<open>.!?\<close> and whose own character is whitespace, and takes the
  whole run of whitespace; the search goes on after the match. The pieces between the
  matches are returned, the last one up to the end of the text. \<open>prev\<close> tells whether the
  character before the position is in \<open>[.!?]\<close>, \<open>cur\<close> is the piece read so far.
\<close>

function re_split_from :: "bool \<Rightarrow> pystr \<Rightarrow> pystr \<Rightarrow> pystr list" where
  "re_split_from prev cur [] = [cur]"
| "re_split_from prev cur (c # cs) =
     (if prev \<and> isspace c then cur # re_split_from False [] (dropWhile isspace cs)
      else re_split_from (is_terminal c) (cur @ [c]) cs)"
  by pat_completeness auto
termination
  by (relation "measure (\<lambda>(prev, cur, rest). length rest)")
     (auto simp: length_dropWhile_le less_Suc_eq_le)

definition re_split :: "pystr \<Rightarrow> pystr list" where
  "re_split text = re_split_from False [] text"

text \<open>
  The body of the \<open>while\<close> loop of \<open>chunk_text\<close>, on the loop's variables \<open>start\<close> and
  \<open>chunks\<close>.
\<close>

definition loop_body :: "pystr list \<Rightarrow> int \<Rightarrow> int \<Rightarrow> int \<times> pystr list \<Rightarrow> int \<times> pystr list" where
  "loop_body sentences chunk_size overlap st =
     (let start = fst st; chunks = snd st;
          end = start + chunk_size;
          chunk_sentences = py_slice sentences start end;
          chunk = strip (join (ustr '' '') chunk_sentences)
      in (start + (chunk_size - overlap), if chunk \<noteq> [] then chunks @ [chunk] else chunks))"

text \<open>
  The loop itself. It runs while \<open>start < len(sentences)\<close>; a run that never leaves the loop
  is the value \<open>None\<close>.
\<close>

partial_function (option) chunk_loop ::
  "pystr list \<Rightarrow> int \<Rightarrow> int \<Rightarrow> int \<times> pystr list \<Rightarrow> pystr list option" where
  "chunk_loop sentences chunk_size overlap st =
     (if fst st < int (length sentences)
      then chunk_loop sentences chunk_size overlap (loop_body sentences chunk_size overlap st)
      else Some (snd st))"

definition chunk_text :: "pystr \<Rightarrow> int \<Rightarrow> int \<Rightarrow> pystr list option" where
  "chunk_text text chunk_size overlap =
     chunk_loop (re_split text) chunk_size overlap (0, [])"

section \<open>The chunker as the specification words it\<close>

text \<open>
  The sentences of the specification, in two steps. First the text is cut immediately after
  every \<open>.\<close>, \<open>!\<close> or \<open>?\<close> that is followed by whitespace. The whitespace after the mark
  separates two sentences and belongs to neither (the specification's example has the
  sentences \<open>"A."\<close> and \<open>"B."\<close> for \<open>"A. B."\<close>): it is taken off the front of every piece but
  the first.
\<close>

fun push :: "'a \<Rightarrow> 'a list list \<Rightarrow> 'a list list" where
  "push c [] = [[c]]"
| "push c (p # ps) = (c # p) # ps"

fun cut_sentences :: "pystr \<Rightarrow> pystr list" where
  "cut_sentences [] = [[]]"
| "cut_sentences [c] = [[c]]"
| "cut_sentences (c # d # cs) =
     (if is_terminal c \<and> isspace d then [c] # cut_sentences (d # cs)
      else push c (cut_sentences (d # cs)))"

definition drop_separators :: "pystr list \<Rightarrow> pystr list" where
  "drop_separators ps = (case ps of [] \<Rightarrow> [] | p # ps \<Rightarrow> p # map (dropWhile isspace) ps)"

definition spec_sentences :: "pystr \<Rightarrow> pystr list" where
  "spec_sentences text = drop_separators (cut_sentences text)"

text \<open>
  Between the two: the pieces that \<open>re_split_from\<close> cuts \<open>rest\<close> into, without the piece read
  so far. Only the proofs use it.
\<close>

function pieces :: "bool \<Rightarrow> pystr \<Rightarrow> pystr list" where
  "pieces prev [] = [[]]"
| "pieces prev (c # cs) =
     (if prev \<and> isspace c then [] # pieces False (dropWhile isspace cs)
      else push c (pieces (is_terminal c) cs))"
  by pat_completeness auto
termination
  by (relation "measure (\<lambda>(prev, rest). length rest)")
     (auto simp: length_dropWhile_le less_Suc_eq_le)

text \<open>
  The windows of a sliding window over \<open>xs\<close>: window \<open>k\<close> starts at \<open>k * step\<close> and holds
  up to \<open>width\<close> elements; there is one window for every start below \<open>length xs\<close>, so
  the windows at the end are shorter than \<open>width\<close>.
\<close>

definition windows :: "'a list \<Rightarrow> nat \<Rightarrow> nat \<Rightarrow> 'a list list" where
  "windows xs width step =
     map (\<lambda>k. take width (drop (k * step) xs)) [0..<(length xs + step - 1) div step]"

text \<open>
  The specification's chunker: each chunk is the space-joined concatenation of a window of
  \<open>chunk_size\<close> sentences, the window advances by \<open>chunk_size - overlap\<close>, and a chunk that
  is only whitespace after trimming is dropped.
\<close>

definition chunk_spec :: "pystr \<Rightarrow> nat \<Rightarrow> nat \<Rightarrow> pystr list" where
  "chunk_spec text chunk_size overlap =
     filter (\<lambda>c. strip c \<noteq> [])
       (map (join (ustr '' ''))
          (windows (spec_sentences text) chunk_size (chunk_size - overlap)))"

text \<open>A string with no leading and no trailing whitespace.\<close>

definition trimmed :: "pystr \<Rightarrow> bool" where
  "trimmed s = (s = [] \<or> (\<not> isspace (hd s) \<and> \<not> isspace (last s)))"

section \<open>Python errors, integers as strings\<close>

text \<open>
  The exceptions that the modelled code can raise: \<open>KeyError\<close> for a missing label of
  \<open>df.loc\<close>, \<open>TypeError\<close> for an item of \<open>str.join\<close> that is not a string.
\<close>

datatype py_error = KeyError | TypeError

text \<open>
  \<open>str(n)\<close> for an integer: its decimal digits, with a leading \<open>-\<close> when it is negative.
  \<open>json.dump\<close> writes the integer keys of a dictionary in the same way.
\<close>

fun str_nat :: "nat \<Rightarrow> pystr" where
  "str_nat n = (if n < 10 then [48 + n] else str_nat (n div 10) @ [48 + n mod 10])"

declare str_nat.simps [simp del]

definition str_int :: "int \<Rightarrow> pystr" where
  "str_int i = (if i < 0 then 45 # str_nat (nat (- i)) else str_nat (nat i))"

section \<open>dataframe\_utils.py\<close>

text \<open>
  \<open>json.dump\<close> of a dictionary with integer keys and integer values, as the list of the
  members of the JSON object: the keys become strings. \<open>json.load\<close> reads a JSON object into
  a dictionary with string keys; of two members with the same key the later one stays.
\<close>

definition json_dump :: "(int \<times> int) list \<Rightarrow> (pystr \<times> int) list" where
  "json_dump d = map (\<lambda>(k, v). (str_int k, v)) d"

definition json_load :: "(pystr \<times> int) list \<Rightarrow> (pystr \<rightharpoonup> int)" where
  "json_load kvs = map_of (rev kvs)"

text \<open>
  A cell of the \<open>text\<close> column of the table that \<open>pd.read_csv\<close> returns: a string, or a value
  that is no string (a NaN for a text such as \<open>NA\<close> or \<open>null\<close>, a number or a boolean when the
  whole column reads as numbers or booleans).
\<close>

datatype cell = Str pystr | NotStr

text \<open>
  The CSV file of the chunk table is the list of its rows as \<open>to_csv\<close> writes them: the
  index and the text. \<open>pd.read_csv(path, index_col=0)\<close> keeps the index column and decides
  for the \<open>text\<close> column what every cell is. That decision is made by pandas, which is not
  part of the repository: \<open>infer column raw\<close> is the cell that it makes of the written text
  \<open>raw\<close> in a column of the written texts \<open>column\<close>. \<open>df.loc\<close> looks a row up by its index.
\<close>

definition read_csv :: "(pystr list \<Rightarrow> pystr \<Rightarrow> cell) \<Rightarrow> (int \<times> pystr) list \<Rightarrow> (int \<rightharpoonup> cell)" where
  "read_csv infer rows = map_of (map (\<lambda>(i, raw). (i, infer (map snd rows) raw)) rows)"

text \<open>
  \<open>create_dataframe\<close>: the table has one row per chunk, indexed from 0, and the id mapping
  is \<open>{i: i for i in range(len(chunks))}\<close>. The result is the pair of the two files written.
\<close>

definition create_dataframe :: "pystr list \<Rightarrow> (int \<times> pystr) list \<times> (pystr \<times> int) list" where
  "create_dataframe chunks =
     (let df = zip (map int [0..<length chunks]) chunks;
          id_mapping = map (\<lambda>i. (int i, int i)) [0..<length chunks]
      in (df, json_dump id_mapping))"

section \<open>embedding\_index.py\<close>

text \<open>
  \<open>build_faiss_index\<close>. A vector is a row of a float32 array; floating-point arithmetic is
  not modelled, and the type \<open>'v\<close> of the vectors is left open. The embedding model and numpy
  are not part of the repository: \<open>encode\<close> is the vector that \<open>SentenceTransformer.encode\<close>
  computes for one text (the model is taken to return one row per text of a batch, in the
  order of the batch), and \<open>l2_normalize\<close> is what
  \<open>embeddings / np.linalg.norm(embeddings, axis=1, keepdims=True)\<close> makes of one row. A
  flat index is the list of the rows added to it, in the order of insertion;
  \<open>faiss.IndexFlatIP(dimension)\<close> is the empty list and \<open>index.add\<close> appends.
\<close>

definition build_faiss_index :: "(pystr \<Rightarrow> 'v) \<Rightarrow> ('v \<Rightarrow> 'v) \<Rightarrow> pystr list \<Rightarrow> 'v list \<times> 'v list" where
  "build_faiss_index encode l2_normalize chunks =
     (let embeddings = map encode chunks;
          embeddings = map l2_normalize embeddings;
          index = [] @ embeddings
      in (index, embeddings))"

section \<open>app.py\<close>

text \<open>
  Modelled from the spec: \<open>index.search\<close> is \<open>faiss.IndexFlatIP.search\<close>, a library that is
  not in the repository. The specification (section 3, SimilarityIndex) describes it:
  ``given a query vector, return the k index positions with highest inner product, in
  descending-similarity order, with ties broken by ascending insertion position''. \<open>score q r\<close>
  is the similarity that the index computes for the query vector \<open>q\<close> and the stored row \<open>r\<close>.
  The library returns exactly \<open>k\<close> labels and fills the places for which the index has no
  vector with \<open>-1\<close>; \<open>retrieve_docs\<close> drops them with the other labels that are no key of the
  id mapping.
\<close>

definition index_search :: "('v \<Rightarrow> 'v \<Rightarrow> real) \<Rightarrow> 'v list \<Rightarrow> 'v \<Rightarrow> nat \<Rightarrow> int list" where
  "index_search score index q k =
     (let ranked = sort_key (\<lambda>p. (- score q (index ! p), p)) [0..<length index];
          found = take k ranked
      in map int found @ replicate (k - length found) (- 1))"

text \<open>The three objects that \<open>app.py\<close> loads when it starts, and keeps.\<close>

record 'v app_context =
  index :: "'v list"
  df :: "int \<rightharpoonup> cell"
  id_mapping :: "pystr \<rightharpoonup> int"

text \<open>
  The load at module level: \<open>faiss.read_index\<close>, \<open>pd.read_csv\<close> and \<open>json.load\<close>, one after
  the other, on the contents of the three files.
\<close>

definition load_app ::
  "(pystr list \<Rightarrow> pystr \<Rightarrow> cell) \<Rightarrow> 'v list \<Rightarrow> (int \<times> pystr) list \<Rightarrow> (pystr \<times> int) list \<Rightarrow> 'v app_context" where
  "load_app infer faiss_file csv_file mapping_file =
     \<lparr>index = faiss_file, df = read_csv infer csv_file, id_mapping = json_load mapping_file\<rparr>"

text \<open>
  The list comprehension of \<open>retrieve_docs\<close> over the labels \<open>I[0]\<close>:
  \<open>[df.loc[int(id_mapping.get(str(idx)))]["text"] for idx in I[0] if str(idx) in id_mapping]\<close>.
  A label whose string is no key of the id mapping is passed over; \<open>df.loc\<close> raises
  \<open>KeyError\<close> for an id that is no index of the table, and the comprehension ends there.
\<close>

fun retrieve_rows :: "'v app_context \<Rightarrow> int list \<Rightarrow> py_error + cell list" where
  "retrieve_rows ctx [] = Inr []"
| "retrieve_rows ctx (idx # I) =
     (case id_mapping ctx (str_int idx) of
        None \<Rightarrow> retrieve_rows ctx I
      | Some cid \<Rightarrow>
          (case df ctx cid of
             None \<Rightarrow> Inl KeyError
           | Some row_text \<Rightarrow>
               (case retrieve_rows ctx I of
                  Inl e \<Rightarrow> Inl e
                | Inr results \<Rightarrow> Inr (row_text # results))))"

text \<open>
  \<open>sep.join(results)\<close> on cells: the join of the strings when every cell is a string,
  \<open>TypeError\<close> otherwise.
\<close>

fun str_items :: "cell list \<Rightarrow> pystr list option" where
  "str_items [] = Some []"
| "str_items (Str t # xs) = (case str_items xs of None \<Rightarrow> None | Some ts \<Rightarrow> Some (t # ts))"
| "str_items (NotStr # xs) = None"

definition str_join :: "pystr \<Rightarrow> cell list \<Rightarrow> py_error + pystr" where
  "str_join sep results =
     (case str_items results of None \<Rightarrow> Inl TypeError | Some ts \<Rightarrow> Inr (join sep ts))"

text \<open>
  \<open>retrieve_docs\<close>: the query is embedded and normalised, the index is searched for
  \<open>top_k\<close> labels, and the texts found are joined with a blank line.
\<close>

definition retrieve_docs ::
  "(pystr \<Rightarrow> 'v) \<Rightarrow> ('v \<Rightarrow> 'v) \<Rightarrow> ('v \<Rightarrow> 'v \<Rightarrow> real) \<Rightarrow> 'v app_context \<Rightarrow> pystr \<Rightarrow> int \<Rightarrow> py_error + pystr" where
  "retrieve_docs encode l2_normalize score ctx query top_k =
     (let query_vec = encode query;
          query_vec = l2_normalize query_vec;
          I = index_search score (index ctx) query_vec (nat top_k)
      in case retrieve_rows ctx I of
           Inl e \<Rightarrow> Inl e
         | Inr results \<Rightarrow> str_join (ustr [CHR 0x0A, CHR 0x0A]) results)"

text \<open>
  The order of the specification on the positions of the index, for the similarities \<open>s\<close>:
  \<open>p\<close> comes before \<open>q\<close> when it is more similar, or as similar and inserted earlier.
\<close>

definition ranked_before :: "(nat \<Rightarrow> real) \<Rightarrow> nat \<Rightarrow> nat \<Rightarrow> bool" where
  "ranked_before s p q = (s q < s p \<or> (s p = s q \<and> p < q))"

section \<open>Properties of the chunker\<close>

subsection \<open>Sentences\<close>

lemma re_split_from_nonempty: "re_split_from prev cur rest \<noteq> []"
  by (induction prev cur rest rule: re_split_from.induct) auto

lemma re_split_nonempty: "re_split text \<noteq> []"
  unfolding re_split_def by (rule re_split_from_nonempty)

lemma pieces_nonempty: "pieces prev rest \<noteq> []"
  by (induction prev rest rule: pieces.induct) (auto simp: neq_Nil_conv split: list.splits)

lemma re_split_from_pieces:
  "re_split_from prev cur rest = (case pieces prev rest of [] \<Rightarrow> [] | p # ps \<Rightarrow> (cur @ p) # ps)"
proof (induction prev cur rest rule: re_split_from.induct)
  case (1 prev cur)
  show ?case by simp
next
  case (2 prev cur c cs)
  show ?case
  proof (cases "prev \<and> isspace c")
    case True
    with 2(1) pieces_nonempty [of False "dropWhile isspace cs"] show ?thesis
      by (auto split: list.splits)
  next
    case False
    with 2(2) pieces_nonempty [of "is_terminal c" cs] show ?thesis
      by (auto split: list.splits)
  qed
qed

lemma space_not_terminal: "isspace c \<Longrightarrow> \<not> is_terminal c"
  by (auto simp: isspace_def is_terminal_def)

lemma pieces_dropWhile:
  "pieces False (dropWhile isspace cs) =
     (case pieces False cs of [] \<Rightarrow> [] | p # ps \<Rightarrow> dropWhile isspace p # ps)"
proof (induction cs)
  case Nil
  show ?case by simp
next
  case (Cons c cs)
  show ?case
  proof (cases "isspace c")
    case True
    with Cons pieces_nonempty [of False cs] show ?thesis
      by (auto simp: space_not_terminal split: list.splits)
  next
    case False
    with pieces_nonempty [of "is_terminal c" cs] show ?thesis
      by (cases "pieces (is_terminal c) cs") auto
  qed
qed

lemma cut_sentences_nonempty: "cut_sentences s \<noteq> []"
  by (induction s rule: cut_sentences.induct) (auto simp: neq_Nil_conv)

lemma drop_separators_push: "ps \<noteq> [] \<Longrightarrow> drop_separators (push c ps) = push c (drop_separators ps)"
  by (cases ps) (auto simp: drop_separators_def)

lemma pieces_cut:
  "pieces prev rest =
     (if prev \<and> rest \<noteq> [] \<and> isspace (hd rest) then [] # map (dropWhile isspace) (cut_sentences rest)
      else drop_separators (cut_sentences rest))"
proof (induction rest arbitrary: prev)
  case Nil
  show ?case by (simp add: drop_separators_def)
next
  case (Cons c cs)
  show ?case
  proof (cases "prev \<and> isspace c")
    case True
    then have nt: "\<not> is_terminal c" by (simp add: space_not_terminal)
    have "pieces False (dropWhile isspace cs) = map (dropWhile isspace) (cut_sentences (c # cs))"
    proof (cases cs)
      case Nil
      with True show ?thesis by simp
    next
      case (Cons d ds)
      from cut_sentences_nonempty [of cs] obtain p ps where c: "cut_sentences cs = p # ps"
        by (cases "cut_sentences cs") auto
      have "pieces False cs = drop_separators (cut_sentences cs)" by (simp add: Cons.IH)
      then have "pieces False (dropWhile isspace cs) = dropWhile isspace p # map (dropWhile isspace) ps"
        by (simp add: pieces_dropWhile c drop_separators_def)
      moreover have "cut_sentences (c # cs) = (c # p) # ps"
        using Cons nt c by simp
      ultimately show ?thesis using True by simp
    qed
    with True show ?thesis by simp
  next
    case False
    show ?thesis
    proof (cases cs)
      case Nil
      with False show ?thesis by (auto simp: drop_separators_def)
    next
      case (Cons d ds)
      have ih: "pieces (is_terminal c) cs =
          (if is_terminal c \<and> isspace d then [] # map (dropWhile isspace) (cut_sentences cs)
           else drop_separators (cut_sentences cs))"
        using Cons.IH [of "is_terminal c"] Cons by simp
      show ?thesis
      proof (cases "is_terminal c \<and> isspace d")
        case True
        with False ih Cons show ?thesis by (auto simp: drop_separators_def)
      next
        case cut: False
        with False ih Cons cut_sentences_nonempty [of cs] show ?thesis
          by (auto simp: drop_separators_push)
      qed
    qed
  qed
qed

lemma re_split_spec_sentences: "re_split text = spec_sentences text"
proof -
  from pieces_nonempty [of False "text"] obtain p ps where p: "pieces False text = p # ps"
    by (cases "pieces False text") auto
  then have "re_split text = p # ps" by (simp add: re_split_def re_split_from_pieces)
  also have "\<dots> = drop_separators (cut_sentences text)" using p by (simp add: pieces_cut)
  finally show ?thesis by (simp add: spec_sentences_def)
qed

lemma chunk_spec_sentences:
  "chunk_spec text chunk_size overlap =
     filter (\<lambda>c. strip c \<noteq> [])
       (map (join (ustr '' '')) (windows (re_split text) chunk_size (chunk_size - overlap)))"
  by (simp add: chunk_spec_def re_split_spec_sentences)

subsection \<open>Trimming\<close>

lemma dropWhile_self: "xs = [] \<or> \<not> P (hd xs) \<Longrightarrow> dropWhile P xs = xs"
  by (cases xs) auto

lemma last_dropWhile_keep: "dropWhile P xs \<noteq> [] \<Longrightarrow> last (dropWhile P xs) = last xs"
  by (induction xs) (auto split: if_splits)

lemma trimmed_strip: "trimmed (strip s)"
proof -
  define t where "t = dropWhile isspace s"
  define u where "u = dropWhile isspace (rev t)"
  have s: "strip s = rev u" by (simp add: strip_def t_def u_def)
  show ?thesis
  proof (cases "u = []")
    case True
    then show ?thesis by (simp add: s trimmed_def)
  next
    case False
    then have t: "t \<noteq> []" by (auto simp: u_def)
    have "last u = last (rev t)" using False unfolding u_def by (rule last_dropWhile_keep)
    then have "last u = hd t" using t by (simp add: last_rev)
    moreover have "\<not> isspace (hd t)" using t unfolding t_def by (rule hd_dropWhile)
    moreover have "\<not> isspace (hd u)" using False unfolding u_def by (rule hd_dropWhile)
    ultimately show ?thesis using False by (simp add: s trimmed_def hd_rev last_rev)
  qed
qed

lemma strip_trimmed: "trimmed s \<Longrightarrow> strip s = s"
  by (cases "s = []") (auto simp: trimmed_def strip_def dropWhile_self hd_rev)

lemma strip_idem: "strip (strip s) = strip s"
  by (rule strip_trimmed [OF trimmed_strip])

lemma sublist_dropWhile_keep:
  "a \<noteq> [] \<Longrightarrow> \<not> P (hd a) \<Longrightarrow> \<exists>ps'. dropWhile P (ps @ a @ ss) = ps' @ a @ ss"
  by (induction ps) (auto simp: dropWhile_self intro: exI[of _ "[]"])

lemma sublist_strip_keep:
  assumes "sublist a b" "trimmed a"
  shows "sublist a (strip b)"
proof (cases "a = []")
  case True
  then show ?thesis by simp
next
  case False
  with assms(2) have h: "\<not> isspace (hd a)" and l: "\<not> isspace (last a)"
    by (auto simp: trimmed_def)
  from assms(1) obtain ps ss where b: "b = ps @ a @ ss" by (auto simp: sublist_def)
  from sublist_dropWhile_keep [of a isspace ps ss] False h
  obtain ps' where 1: "dropWhile isspace b = ps' @ a @ ss" by (auto simp: b)
  have "rev a \<noteq> []" "\<not> isspace (hd (rev a))" using False l by (auto simp: hd_rev)
  with sublist_dropWhile_keep [of "rev a" isspace "rev ss" "rev ps'"]
  obtain ss' where 2: "dropWhile isspace (rev ss @ rev a @ rev ps') = ss' @ rev a @ rev ps'"
    by auto
  have "strip b = ps' @ a @ rev ss'" by (simp add: strip_def 1 2)
  then show ?thesis by (auto simp: sublist_def)
qed

lemma sublist_strip: "sublist (strip s) s"
  unfolding strip_def
  by (metis sublist_dropWhile sublist_rev rev_rev_ident sublist_order.order_trans)

lemma sublist_join: "s \<in> set w \<Longrightarrow> sublist s (join sep w)"
proof (induction sep w rule: join.induct)
  case (3 sep x y ys)
  show ?case
  proof (cases "s = x")
    case True
    then show ?thesis by (simp add: sublist_def) (metis append_Nil)
  next
    case False
    with 3 obtain ps ss where "join sep (y # ys) = ps @ s @ ss" by (auto simp: sublist_def)
    then have "join sep (x # y # ys) = (x @ sep @ ps) @ s @ ss" by simp
    then show ?thesis unfolding sublist_def by blast
  qed
qed auto

subsection \<open>The loop\<close>

lemma window_count:
  fixes k n step :: nat
  assumes s: "0 < step"
  shows "(k < (n + step - 1) div step) = (k * step < n)"
proof -
  have "(k < (n + step - 1) div step) = (Suc k \<le> (n + step - 1) div step)" by auto
  also have "\<dots> = (Suc k * step \<le> n + step - 1)"
    using s by (simp only: less_eq_div_iff_mult_less_eq)
  also have "\<dots> = (k * step < n)" using s by auto
  finally show ?thesis .
qed

lemma py_slice_window:
  "0 \<le> cs \<Longrightarrow> py_slice xs (int a) (int a + cs) = take (nat cs) (drop a xs)"
  by (auto simp: py_slice_def slice_bound_def Let_def min_def nat_add_distrib)

lemma loop_body_window:
  "0 \<le> cs \<Longrightarrow> loop_body s cs ov (int a, chunks) =
     (int a + (cs - ov),
      chunks @ filter (\<lambda>c. c \<noteq> []) [strip (join (ustr '' '') (take (nat cs) (drop a s)))])"
  by (simp add: loop_body_def Let_def py_slice_window)

lemma chunk_loop_windows:
  assumes "0 \<le> ov" "ov < cs"
  shows "k \<le> (length s + nat (cs - ov) - 1) div nat (cs - ov) \<Longrightarrow>
    chunk_loop s cs ov (int (k * nat (cs - ov)), chunks) =
      Some (chunks @ filter (\<lambda>c. c \<noteq> [])
        (map (\<lambda>j. strip (join (ustr '' '') (take (nat cs) (drop (j * nat (cs - ov)) s))))
           [k..<(length s + nat (cs - ov) - 1) div nat (cs - ov)]))"
proof (induction "(length s + nat (cs - ov) - 1) div nat (cs - ov) - k" arbitrary: k chunks)
  case 0
  then have k: "k = (length s + nat (cs - ov) - 1) div nat (cs - ov)" by simp
  have "\<not> k * nat (cs - ov) < length s"
    using window_count [of "nat (cs - ov)" k "length s"] assms k by simp
  then have stop: "\<not> int (k * nat (cs - ov)) < int (length s)" unfolding of_nat_less_iff .
  have "chunk_loop s cs ov (int (k * nat (cs - ov)), chunks) = Some chunks"
    by (subst chunk_loop.simps) (simp only: fst_conv snd_conv stop if_False)
  then show ?case using k by simp
next
  case (Suc d)
  let ?K = "(length s + nat (cs - ov) - 1) div nat (cs - ov)"
  from Suc(2) have k: "k < ?K" by linarith
  then have lt: "k * nat (cs - ov) < length s"
    using window_count [of "nat (cs - ov)" k "length s"] assms by simp
  then have go: "int (k * nat (cs - ov)) < int (length s)" unfolding of_nat_less_iff .
  have "int (nat (cs - ov)) = cs - ov" using assms by simp
  then have next_start: "int (k * nat (cs - ov)) + (cs - ov) = int (Suc k * nat (cs - ov))"
    by (simp only: mult_Suc of_nat_add add.commute)
  have d: "d = ?K - Suc k" using Suc(2) by linarith
  have le: "Suc k \<le> ?K" using k by linarith
  have cs: "0 \<le> cs" using assms by simp
  have "chunk_loop s cs ov (int (k * nat (cs - ov)), chunks) =
      chunk_loop s cs ov (loop_body s cs ov (int (k * nat (cs - ov)), chunks))"
    by (subst chunk_loop.simps) (simp only: fst_conv go if_True)
  also have "\<dots> = chunk_loop s cs ov (int (Suc k * nat (cs - ov)),
      chunks @ filter (\<lambda>c. c \<noteq> [])
        [strip (join (ustr '' '') (take (nat cs) (drop (k * nat (cs - ov)) s)))])"
    by (simp only: loop_body_window [OF cs] next_start)
  also have "\<dots> = Some ((chunks @ filter (\<lambda>c. c \<noteq> [])
        [strip (join (ustr '' '') (take (nat cs) (drop (k * nat (cs - ov)) s)))]) @
      filter (\<lambda>c. c \<noteq> [])
        (map (\<lambda>j. strip (join (ustr '' '') (take (nat cs) (drop (j * nat (cs - ov)) s))))
           [Suc k..<?K]))"
    by (rule Suc(1) [OF d le])
  also have "[k..<?K] = k # [Suc k..<?K]" using k by (rule upt_conv_Cons)
  then have "(chunks @ filter (\<lambda>c. c \<noteq> [])
        [strip (join (ustr '' '') (take (nat cs) (drop (k * nat (cs - ov)) s)))]) @
      filter (\<lambda>c. c \<noteq> [])
        (map (\<lambda>j. strip (join (ustr '' '') (take (nat cs) (drop (j * nat (cs - ov)) s))))
           [Suc k..<?K]) =
      chunks @ filter (\<lambda>c. c \<noteq> [])
        (map (\<lambda>j. strip (join (ustr '' '') (take (nat cs) (drop (j * nat (cs - ov)) s))))
           [k..<?K])"
    by (simp del: mult_Suc upt_Suc)
  finally show ?case .
qed

lemma chunk_text_terminates:
  assumes "0 \<le> ov" "ov < cs"
  shows "chunk_text text cs ov = Some (map strip (chunk_spec text (nat cs) (nat ov)))"
proof -
  have step: "nat cs - nat ov = nat (cs - ov)" using assms by simp
  have f: "filter (\<lambda>c. c \<noteq> []) (map (\<lambda>x. strip (g x)) xs) =
        map strip (filter (\<lambda>c. strip c \<noteq> []) (map g xs))" for g :: "nat \<Rightarrow> pystr" and xs
    by (induction xs) auto
  show ?thesis
    unfolding chunk_text_def chunk_spec_sentences windows_def step
    using chunk_loop_windows [OF assms, of 0 "re_split text" "[]"]
    by (simp add: f comp_def)
qed

lemma chunk_loop_diverges_aux:
  assumes "chunk_loop s cs ov st = Some y"
  shows "\<not> (cs \<le> ov \<and> fst st < int (length s))"
proof (rule chunk_loop.raw_induct
    [where P = "\<lambda>s cs ov st y. \<not> (cs \<le> ov \<and> fst st < int (length s))", OF _ assms])
  fix loop s cs ov st and y :: "pystr list"
  assume ih: "\<And>s cs ov st y. loop s cs ov st = Some y \<Longrightarrow>
      \<not> (cs \<le> ov \<and> fst st < int (length s))"
    and eq: "(if fst st < int (length s) then loop s cs ov (loop_body s cs ov st)
      else Some (snd st)) = Some y"
  show "\<not> (cs \<le> ov \<and> fst st < int (length s))"
  proof
    assume a: "cs \<le> ov \<and> fst st < int (length s)"
    with eq have "loop s cs ov (loop_body s cs ov st) = Some y" by simp
    then have "\<not> (cs \<le> ov \<and> fst (loop_body s cs ov st) < int (length s))" by (rule ih)
    moreover have "fst (loop_body s cs ov st) = fst st + (cs - ov)"
      by (simp add: loop_body_def Let_def)
    ultimately show False using a by linarith
  qed
qed

lemma chunk_text_diverges: "cs \<le> ov \<Longrightarrow> chunk_text text cs ov = None"
proof (rule ccontr)
  assume c: "cs \<le> ov" and "chunk_text text cs ov \<noteq> None"
  then obtain y where "chunk_loop (re_split text) cs ov (0, []) = Some y"
    by (auto simp: chunk_text_def)
  from chunk_loop_diverges_aux [OF this] c re_split_nonempty [of "text"] show False by simp
qed

subsection \<open>Coverage\<close>

lemma filter_dropWhile_not: "filter (\<lambda>c. \<not> P c) (dropWhile P xs) = filter (\<lambda>c. \<not> P c) xs"
  by (induction xs) auto

lemma re_split_from_nonspace:
  "filter (\<lambda>c. \<not> isspace c) (concat (re_split_from prev cur rest)) =
   filter (\<lambda>c. \<not> isspace c) (cur @ rest)"
  by (induction prev cur rest rule: re_split_from.induct) (auto simp: filter_dropWhile_not)

lemma re_split_nonspace:
  "filter (\<lambda>c. \<not> isspace c) (concat (re_split text)) = filter (\<lambda>c. \<not> isspace c) text"
  unfolding re_split_def by (simp add: re_split_from_nonspace)

lemma re_split_has_nonspace:
  assumes "c \<in> set text" "\<not> isspace c"
  shows "\<exists>s\<in>set (re_split text). \<exists>c\<in>set s. \<not> isspace c"
proof -
  from assms have "c \<in> set (filter (\<lambda>c. \<not> isspace c) text)" by simp
  then have "c \<in> set (filter (\<lambda>c. \<not> isspace c) (concat (re_split text)))"
    by (simp only: re_split_nonspace)
  then show ?thesis using assms(2) by auto
qed

lemma strip_empty_iff: "(strip x = []) = (\<forall>c\<in>set x. isspace c)"
proof
  assume "strip x = []"
  then have "\<forall>c\<in>set (dropWhile isspace x). isspace c"
    by (simp add: strip_def dropWhile_eq_Nil_conv)
  then have "dropWhile isspace x = []"
    using hd_dropWhile [of isspace x] hd_in_set [of "dropWhile isspace x"] by blast
  then show "\<forall>c\<in>set x. isspace c" by (simp add: dropWhile_eq_Nil_conv)
next
  assume "\<forall>c\<in>set x. isspace c"
  then show "strip x = []" by (auto simp: strip_def dest: set_dropWhileD)
qed

lemma window_covers:
  fixes i step w :: nat
  assumes "i < length S" "0 < step" "step \<le> w"
  shows "i div step < (length S + step - 1) div step \<and>
         S ! i \<in> set (take w (drop (i div step * step) S))"
proof -
  let ?j = "i div step"
  have le: "?j * step \<le> i" by simp
  have lt: "i < ?j * step + step" using assms(2)
    by (metis add.commute div_mult_mod_eq mod_less_divisor mult.commute nat_add_left_cancel_less)
  from le assms(1) have "?j * step < length S" by linarith
  then have 1: "?j < (length S + step - 1) div step" by (simp only: window_count [OF assms(2)])
  have off: "i - ?j * step < w" using lt le assms(3) by linarith
  have len: "i - ?j * step < length (drop (?j * step) S)"
    unfolding length_drop using assms(1) le by linarith
  have "drop (?j * step) S ! (i - ?j * step) = S ! (?j * step + (i - ?j * step))"
    using le assms(1) by (simp only: nth_drop)
  then have "take w (drop (?j * step) S) ! (i - ?j * step) = S ! i"
    using off le by (simp only: nth_take le_add_diff_inverse)
  moreover have "i - ?j * step < length (take w (drop (?j * step) S))" using off len by simp
  ultimately have "S ! i \<in> set (take w (drop (?j * step) S))" by (metis nth_mem)
  with 1 show ?thesis by simp
qed

lemma chunk_text_covers:
  assumes "0 \<le> ov" "ov < cs" "c \<in> set text" "\<not> isspace c"
  shows "\<exists>chunks. chunk_text text cs ov = Some chunks \<and> chunks \<noteq> [] \<and>
           (\<forall>c\<in>set chunks. strip c \<noteq> []) \<and>
           (\<forall>s\<in>set (re_split text). \<exists>c\<in>set chunks. sublist (strip s) c)"
proof -
  define S where "S = re_split text"
  define step where "step = nat cs - nat ov"
  define w where "w = nat cs"
  define chunks where "chunks = map strip (chunk_spec text (nat cs) (nat ov))"
  have step: "0 < step" "step \<le> w" using assms(1,2) by (auto simp: step_def w_def)
  have ret: "chunk_text text cs ov = Some chunks"
    unfolding chunks_def by (rule chunk_text_terminates [OF assms(1,2)])
  have emitted: "strip (join (ustr '' '') (take w (drop (j * step) S))) \<in> set chunks"
    if "j < (length S + step - 1) div step"
      and "strip (join (ustr '' '') (take w (drop (j * step) S))) \<noteq> []" for j
  proof -
    have "take w (drop (j * step) S) \<in> set (windows S w step)"
      using that(1) by (auto simp: windows_def)
    then have "join (ustr '' '') (take w (drop (j * step) S)) \<in> set (chunk_spec text w (nat ov))"
      using that(2) by (auto simp: chunk_spec_sentences S_def step_def w_def)
    then show ?thesis unfolding chunks_def w_def set_map by (rule imageI)
  qed
  have nonblank: "\<forall>c\<in>set chunks. strip c \<noteq> []"
    by (auto simp: chunks_def chunk_spec_sentences strip_idem)
  from re_split_has_nonspace [OF assms(3,4)]
  obtain s0 c0 where s0: "s0 \<in> set S" "c0 \<in> set s0" "\<not> isspace c0" by (auto simp: S_def)
  have in_chunk: "\<exists>c\<in>set chunks. sublist (strip s) c"
    if "s \<in> set S" and ne: "chunks \<noteq> [] \<or> (\<exists>d\<in>set s. \<not> isspace d)" for s
  proof -
    from that(1) obtain i where i: "i < length S" "S ! i = s" by (auto simp: in_set_conv_nth)
    let ?win = "take w (drop (i div step * step) S)"
    from window_covers [OF i(1) step] i(2)
    have j: "i div step < (length S + step - 1) div step" and mem: "s \<in> set ?win" by auto
    have sub: "sublist s (join (ustr '' '') ?win)" using mem by (rule sublist_join)
    show ?thesis
    proof (cases "strip (join (ustr '' '') ?win) = []")
      case True
      then have "\<forall>d\<in>set (join (ustr '' '') ?win). isspace d" by (simp only: strip_empty_iff)
      then have "\<forall>d\<in>set s. isspace d" using sub by (auto simp: sublist_def)
      then have e: "strip s = []" by (simp only: strip_empty_iff)
      with ne \<open>\<forall>d\<in>set s. isspace d\<close> have "chunks \<noteq> []" by blast
      then obtain c where "c \<in> set chunks" by (cases chunks) auto
      then show ?thesis using e by auto
    next
      case False
      from emitted [OF j False] have "strip (join (ustr '' '') ?win) \<in> set chunks" .
      moreover have "sublist (strip s) (join (ustr '' '') ?win)"
        using sublist_strip sub by (rule sublist_order.order_trans)
      then have "sublist (strip s) (strip (join (ustr '' '') ?win))"
        using trimmed_strip by (rule sublist_strip_keep)
      ultimately show ?thesis by blast
    qed
  qed
  have "chunks \<noteq> [] \<or> (\<exists>d\<in>set s0. \<not> isspace d)" using s0(2,3) by blast
  from in_chunk [OF s0(1) this] have ne: "chunks \<noteq> []" by auto
  have "\<forall>s\<in>set S. \<exists>c\<in>set chunks. sublist (strip s) c"
    using in_chunk ne by blast
  with ret ne nonblank show ?thesis unfolding S_def by blast
qed

subsection \<open>The emitted chunks\<close>

lemma loop_body_trimmed:
  assumes "\<forall>c\<in>set (snd st). c \<noteq> [] \<and> strip c = c"
  shows "\<forall>c\<in>set (snd (loop_body s cs ov st)). c \<noteq> [] \<and> strip c = c"
  using assms by (auto simp: loop_body_def Let_def strip_idem)

lemma chunk_loop_trimmed:
  assumes "chunk_loop s cs ov st = Some y"
  shows "(\<forall>c\<in>set (snd st). c \<noteq> [] \<and> strip c = c) \<longrightarrow> (\<forall>c\<in>set y. c \<noteq> [] \<and> strip c = c)"
proof (rule chunk_loop.raw_induct
    [where P = "\<lambda>s cs ov st y. (\<forall>c\<in>set (snd st). c \<noteq> [] \<and> strip c = c) \<longrightarrow>
        (\<forall>c\<in>set y. c \<noteq> [] \<and> strip c = c)", OF _ assms])
  fix loop s cs ov and st :: "int \<times> pystr list" and y :: "pystr list"
  assume ih: "\<And>s cs ov st y. loop s cs ov st = Some y \<Longrightarrow>
      (\<forall>c\<in>set (snd st). c \<noteq> [] \<and> strip c = c) \<longrightarrow> (\<forall>c\<in>set y. c \<noteq> [] \<and> strip c = c)"
    and eq: "(if fst st < int (length s) then loop s cs ov (loop_body s cs ov st)
      else Some (snd st)) = Some y"
  show "(\<forall>c\<in>set (snd st). c \<noteq> [] \<and> strip c = c) \<longrightarrow> (\<forall>c\<in>set y. c \<noteq> [] \<and> strip c = c)"
  proof (cases "fst st < int (length s)")
    case True
    with eq have "loop s cs ov (loop_body s cs ov st) = Some y" by simp
    from ih [OF this] loop_body_trimmed [of st s cs ov] show ?thesis by blast
  next
    case False
    with eq show ?thesis by auto
  qed
qed

lemma loop_iterate_trimmed:
  "\<forall>c\<in>set (snd ((loop_body s cs ov ^^ n) (0, []))). c \<noteq> [] \<and> strip c = c"
proof (induction n)
  case 0
  show ?case by simp
next
  case (Suc n)
  have "(loop_body s cs ov ^^ Suc n) (0, []) =
      loop_body s cs ov ((loop_body s cs ov ^^ n) (0, []))" by simp
  with loop_body_trimmed [OF Suc] show ?case by (simp only:)
qed

section \<open>Properties of the build step and of the retriever\<close>

subsection \<open>Integers as strings\<close>

lemma str_nat_nonempty: "str_nat n \<noteq> []"
  by (subst str_nat.simps) simp

lemma str_nat_inj: "str_nat m = str_nat n \<Longrightarrow> m = n"
proof (induction m arbitrary: n rule: str_nat.induct)
  case (1 m)
  show ?case
  proof (cases "m < 10")
    case True
    show ?thesis
    proof (cases "n < 10")
      case n: True
      from 1(2) True n show ?thesis by (simp add: str_nat.simps [of m] str_nat.simps [of n])
    next
      case n: False
      from 1(2) True n str_nat_nonempty [of "n div 10"] show ?thesis
        by (simp add: str_nat.simps [of m] str_nat.simps [of n])
    qed
  next
    case False
    show ?thesis
    proof (cases "n < 10")
      case n: True
      from 1(2) False n str_nat_nonempty [of "m div 10"] show ?thesis
        by (simp add: str_nat.simps [of m] str_nat.simps [of n])
    next
      case n: False
      from 1(2) False n have "str_nat (m div 10) = str_nat (n div 10)" and "m mod 10 = n mod 10"
        by (simp_all add: str_nat.simps [of m] str_nat.simps [of n])
      with 1(1) [OF False] have "m div 10 = n div 10" "m mod 10 = n mod 10" by simp_all
      then show ?thesis by (metis div_mult_mod_eq)
    qed
  qed
qed

lemma str_nat_digits: "c \<in> set (str_nat n) \<Longrightarrow> 48 \<le> c"
proof (induction n rule: str_nat.induct)
  case (1 n)
  then show ?case by (subst (asm) (2) str_nat.simps) (auto split: if_splits)
qed

lemma str_int_inj: "str_int i = str_int j \<Longrightarrow> i = j"
proof -
  assume a: "str_int i = str_int j"
  have neg: "45 # str_nat a \<noteq> str_nat b" for a b
  proof
    assume "45 # str_nat a = str_nat b"
    then have "45 \<in> set (str_nat b)" by (metis list.set_intros(1))
    from str_nat_digits [OF this] show False by simp
  qed
  show ?thesis
    using a neg neg [symmetric] by (auto simp: str_int_def split: if_splits dest!: str_nat_inj)
qed

subsection \<open>The id mapping and the chunk table\<close>

lemma json_keys_distinct: "distinct (map fst (json_dump (map (\<lambda>i. (int i, int i)) [0..<n])))"
proof -
  have "map fst (json_dump (map (\<lambda>i. (int i, int i)) [0..<n])) = map (\<lambda>i. str_int (int i)) [0..<n]"
    by (simp add: json_dump_def comp_def)
  moreover have "inj_on (\<lambda>i. str_int (int i)) (set [0..<n])"
    by (rule inj_onI) (auto dest: str_int_inj)
  ultimately show ?thesis by (simp add: distinct_map)
qed

lemma id_mapping_identity:
  assumes "i < n"
  shows "json_load (json_dump (map (\<lambda>i. (int i, int i)) [0..<n])) (str_int (int i)) = Some (int i)"
proof -
  have "(str_int (int i), int i) \<in> set (rev (json_dump (map (\<lambda>i. (int i, int i)) [0..<n])))"
    using assms by (auto simp: json_dump_def)
  moreover have "distinct (map fst (rev (json_dump (map (\<lambda>i. (int i, int i)) [0..<n]))))"
    using json_keys_distinct [of n] by (simp add: rev_map [symmetric])
  ultimately show ?thesis
    unfolding json_load_def by (simp only: map_of_eq_Some_iff)
qed

lemma id_mapping_dom:
  "dom (json_load (json_dump (map (\<lambda>i. (int i, int i)) [0..<n]))) = (\<lambda>i. str_int (int i)) ` {0..<n}"
  unfolding json_load_def dom_map_of_conv_image_fst
  by (force simp: json_dump_def image_iff)

lemma read_csv_zip:
  assumes "length ids = length texts"
  shows "read_csv infer (zip ids texts) = map_of (zip ids (map (infer texts) texts))"
proof -
  have "map (\<lambda>(i, raw). (i, f raw)) (zip xs ys) = zip xs (map f ys)" for f :: "pystr \<Rightarrow> cell"
    and xs :: "int list" and ys
    by (induction xs ys rule: list_induct2') auto
  then show ?thesis using assms by (simp add: read_csv_def)
qed

lemma table_lookup:
  assumes i: "i < length chunks"
  shows "read_csv infer (zip (map int [0..<length chunks]) chunks) (int i) =
    Some (infer chunks (chunks ! i))"
proof -
  have "map_of (zip (map int [0..<length chunks]) (map (infer chunks) chunks))
      (map int [0..<length chunks] ! i) = Some (map (infer chunks) chunks ! i)"
    by (rule map_of_zip_nth) (use i in \<open>simp_all add: distinct_map\<close>)
  then show ?thesis using i by (simp add: read_csv_zip)
qed

subsection \<open>The rows of a request\<close>

lemma retrieve_rows_skips:
  "retrieve_rows ctx I = retrieve_rows ctx (filter (\<lambda>idx. str_int idx \<in> dom (id_mapping ctx)) I)"
  by (induction I) (auto split: option.splits sum.splits)

lemma retrieve_rows_error:
  "retrieve_rows ctx I = Inl e \<Longrightarrow>
     \<exists>idx\<in>set I. \<exists>cid. id_mapping ctx (str_int idx) = Some cid \<and> df ctx cid = None"
  by (induction I) (auto split: option.splits sum.splits)

lemma retrieve_rows_key_error: "retrieve_rows ctx I = Inl e \<Longrightarrow> e = KeyError"
  by (induction I) (auto split: option.splits sum.splits)

lemma retrieve_rows_resolved:
  "retrieve_rows ctx I = Inr results \<Longrightarrow>
     \<forall>idx\<in>set I. \<forall>cid. id_mapping ctx (str_int idx) = Some cid \<longrightarrow> df ctx cid \<noteq> None"
  by (induction I arbitrary: results) (auto split: option.splits sum.splits)

lemma retrieve_rows_dangling:
  assumes "idx \<in> set I" "id_mapping ctx (str_int idx) = Some cid" "df ctx cid = None"
  shows "retrieve_rows ctx I = Inl KeyError"
proof (cases "retrieve_rows ctx I")
  case (Inl e)
  with retrieve_rows_key_error [OF Inl] show ?thesis by simp
next
  case (Inr results)
  from retrieve_rows_resolved [OF this] assms show ?thesis by blast
qed

lemma retrieve_rows_returns:
  assumes "\<forall>idx\<in>set I. \<forall>cid. id_mapping ctx (str_int idx) = Some cid \<longrightarrow> cid \<in> dom (df ctx)"
  shows "\<exists>results. retrieve_rows ctx I = Inr results \<and>
    list_all2 (\<lambda>idx t. \<exists>cid. id_mapping ctx (str_int idx) = Some cid \<and> df ctx cid = Some t)
      (filter (\<lambda>idx. str_int idx \<in> dom (id_mapping ctx)) I) results"
  using assms
proof (induction I)
  case Nil
  then show ?case by simp
next
  case (Cons idx I)
  then obtain results where r: "retrieve_rows ctx I = Inr results"
    "list_all2 (\<lambda>idx t. \<exists>cid. id_mapping ctx (str_int idx) = Some cid \<and> df ctx cid = Some t)
      (filter (\<lambda>idx. str_int idx \<in> dom (id_mapping ctx)) I) results" by auto
  show ?case
  proof (cases "id_mapping ctx (str_int idx)")
    case None
    with r show ?thesis by (auto simp: dom_def)
  next
    case (Some cid)
    with Cons(2) obtain t where "df ctx cid = Some t" by auto
    with Some r show ?thesis by (auto simp: dom_def)
  qed
qed

lemma str_items_map: "str_items (map Str ts) = Some ts"
  by (induction ts) auto

lemma str_items_None: "str_items xs = None \<Longrightarrow> NotStr \<in> set xs"
  by (induction xs rule: str_items.induct) (auto split: option.splits)

lemma retrieve_rows_cells:
  "retrieve_rows ctx I = Inr results \<Longrightarrow> x \<in> set results \<Longrightarrow>
     \<exists>idx\<in>set I. \<exists>cid. id_mapping ctx (str_int idx) = Some cid \<and> df ctx cid = Some x"
  by (induction I arbitrary: results) (auto split: option.splits sum.splits)

subsection \<open>The search\<close>

lemma ranking_sorted:
  "sorted_wrt (ranked_before s) (sort_key (\<lambda>p. (- s p, p)) [0..<n])"
proof -
  let ?key = "\<lambda>p::nat. (- s p, p)"
  let ?r = "sort_key ?key [0..<n]"
  have "sorted (map ?key ?r)" by (rule sorted_sort_key)
  moreover have "distinct (map ?key ?r)"
    by (simp add: distinct_map inj_on_def)
  ultimately have "sorted_wrt (<) (map ?key ?r)" by (simp only: strict_sorted_iff)
  then have "sorted_wrt (\<lambda>p q. ?key p < ?key q) ?r" by (simp only: sorted_wrt_map)
  moreover have "(?key p < ?key q) = ranked_before s p q" for p q
    by (auto simp: ranked_before_def less_prod_def)
  ultimately show ?thesis by simp
qed

lemma index_search_shape:
  "\<exists>found. index_search score idx q k = map int found @ replicate (k - length found) (- 1) \<and>
     length found = min k (length idx) \<and> set found \<subseteq> {0..<length idx} \<and>
     sorted_wrt (ranked_before (\<lambda>p. score q (idx ! p))) found"
proof -
  let ?r = "sort_key (\<lambda>p. (- score q (idx ! p), p)) [0..<length idx]"
  have "sorted_wrt (ranked_before (\<lambda>p. score q (idx ! p))) (take k ?r)"
    using ranking_sorted [of "\<lambda>p. score q (idx ! p)" "length idx"] by (rule sorted_wrt_take)
  moreover have "set (take k ?r) \<subseteq> {0..<length idx}"
    using set_take_subset [of k ?r] by simp
  moreover have "length (take k ?r) = min k (length idx)" by simp
  ultimately show ?thesis unfolding index_search_def Let_def by blast
qed

subsection \<open>A request on a context with the integrity invariant\<close>

lemma retrieve_docs_ranked:
  assumes k: "0 < top_k"
    and keys: "\<forall>key\<in>dom (id_mapping ctx). \<exists>i<length (index ctx). key = str_int (int i)"
    and ids: "\<forall>cid\<in>ran (id_mapping ctx). \<exists>t. df ctx cid = Some (Str t)"
  shows "\<exists>ps results.
     retrieve_docs encode l2_normalize score ctx query top_k =
       Inr (join (ustr [CHR 0x0A, CHR 0x0A]) results) \<and>
     length results \<le> min (nat top_k) (length (index ctx)) \<and>
     list_all2 (\<lambda>p t. \<exists>cid. id_mapping ctx (str_int (int p)) = Some cid \<and> df ctx cid = Some (Str t))
       ps results \<and>
     sorted_wrt (ranked_before (\<lambda>p. score (l2_normalize (encode query)) (index ctx ! p))) ps \<and>
     set ps \<subseteq> {0..<length (index ctx)} \<and>
     (index ctx = [] \<longrightarrow> results = [])"
proof -
  let ?q = "l2_normalize (encode query)"
  let ?present = "\<lambda>idx. str_int idx \<in> dom (id_mapping ctx)"
  from index_search_shape [of score "index ctx" ?q "nat top_k"]
  obtain found where I: "index_search score (index ctx) ?q (nat top_k) =
        map int found @ replicate (nat top_k - length found) (- 1)"
    and len: "length found = min (nat top_k) (length (index ctx))"
    and range: "set found \<subseteq> {0..<length (index ctx)}"
    and sorted: "sorted_wrt (ranked_before (\<lambda>p. score ?q (index ctx ! p))) found" by blast
  let ?I = "index_search score (index ctx) ?q (nat top_k)"
  define ps where "ps = filter (\<lambda>p. ?present (int p)) found"
  have "\<not> ?present (- 1)"
  proof
    assume "?present (- 1)"
    with keys obtain i where "str_int (- 1) = str_int (int i)" by blast
    then have "- 1 = int i" by (rule str_int_inj)
    then show False by simp
  qed
  then have filtered: "filter ?present ?I = map int ps"
    by (simp add: I ps_def filter_map comp_def)
  have "\<forall>idx\<in>set ?I. \<forall>cid. id_mapping ctx (str_int idx) = Some cid \<longrightarrow> cid \<in> dom (df ctx)"
    using ids by (fastforce simp: ran_def)
  from retrieve_rows_returns [OF this] obtain cells where
    r: "retrieve_rows ctx ?I = Inr cells"
    and all2: "list_all2 (\<lambda>idx t. \<exists>cid. id_mapping ctx (str_int idx) = Some cid \<and> df ctx cid = Some t)
      (filter ?present ?I) cells" by blast
  have "\<forall>x\<in>set cells. \<exists>t. x = Str t"
  proof
    fix x
    assume "x \<in> set cells"
    from retrieve_rows_cells [OF r this] obtain cid idx where
      c: "id_mapping ctx (str_int idx) = Some cid" "df ctx cid = Some x" by blast
    then have "cid \<in> ran (id_mapping ctx)" by (auto simp: ran_def)
    with ids c(2) show "\<exists>t. x = Str t" by fastforce
  qed
  then obtain results where cells: "cells = map Str results"
    by (metis ex_map_conv)
  from all2 have all2': "list_all2 (\<lambda>p t. \<exists>cid. id_mapping ctx (str_int (int p)) = Some cid \<and>
      df ctx cid = Some (Str t)) ps results"
    by (simp only: filtered cells list_all2_map1 list_all2_map2)
  then have "length results = length ps" by (simp add: list_all2_lengthD)
  also have "\<dots> \<le> length found" unfolding ps_def by (rule length_filter_le)
  finally have bound: "length results \<le> min (nat top_k) (length (index ctx))" by (simp only: len)
  have 1: "retrieve_docs encode l2_normalize score ctx query top_k =
      Inr (join (ustr [CHR 0x0A, CHR 0x0A]) results)"
    by (simp add: retrieve_docs_def Let_def r cells str_join_def str_items_map)
  have 2: "sorted_wrt (ranked_before (\<lambda>p. score ?q (index ctx ! p))) ps"
    unfolding ps_def using sorted by (rule sorted_wrt_filter)
  have 3: "set ps \<subseteq> {0..<length (index ctx)}" using range by (auto simp: ps_def)
  have 4: "index ctx = [] \<longrightarrow> results = []" using bound by auto
  from 1 bound all2' 2 3 4 show ?thesis by blast
qed

subsection \<open>The context that the build step produces\<close>

lemma build_then_load:
  fixes encode :: "pystr \<Rightarrow> 'v" and l2_normalize :: "'v \<Rightarrow> 'v"
    and infer :: "pystr list \<Rightarrow> pystr \<Rightarrow> cell"
  defines "ctx \<equiv> \<lambda>chunks. load_app infer (fst (build_faiss_index encode l2_normalize chunks))
      (fst (create_dataframe chunks)) (snd (create_dataframe chunks))"
  shows "index (ctx chunks) = map (\<lambda>c. l2_normalize (encode c)) chunks"
    and "dom (id_mapping (ctx chunks)) = (\<lambda>i. str_int (int i)) ` {0..<length chunks}"
    and "i < length chunks \<Longrightarrow> id_mapping (ctx chunks) (str_int (int i)) = Some (int i)"
    and "i < length chunks \<Longrightarrow> df (ctx chunks) (int i) = Some (infer chunks (chunks ! i))"
    and "ran (id_mapping (ctx chunks)) \<subseteq> dom (df (ctx chunks))"
proof -
  show 1: "index (ctx chunks) = map (\<lambda>c. l2_normalize (encode c)) chunks"
    by (simp add: ctx_def load_app_def build_faiss_index_def Let_def comp_def)
  show 2: "dom (id_mapping (ctx chunks)) = (\<lambda>i. str_int (int i)) ` {0..<length chunks}"
    by (simp add: ctx_def load_app_def create_dataframe_def Let_def id_mapping_dom)
  show 3: "id_mapping (ctx chunks) (str_int (int i)) = Some (int i)" if "i < length chunks" for i
    using that by (simp add: ctx_def load_app_def create_dataframe_def Let_def id_mapping_identity)
  show 4: "df (ctx chunks) (int i) = Some (infer chunks (chunks ! i))" if "i < length chunks" for i
    using that by (simp add: ctx_def load_app_def create_dataframe_def Let_def table_lookup)
  show "ran (id_mapping (ctx chunks)) \<subseteq> dom (df (ctx chunks))"
  proof
    fix cid
    assume "cid \<in> ran (id_mapping (ctx chunks))"
    then obtain key where key: "id_mapping (ctx chunks) key = Some cid" by (auto simp: ran_def)
    then have "key \<in> dom (id_mapping (ctx chunks))" by blast
    with 2 obtain i where i: "i < length chunks" "key = str_int (int i)" by auto
    with 3 key have "cid = int i" by simp
    with 4 i show "cid \<in> dom (df (ctx chunks))" by blast
  qed
qed

section \<open>The claims\<close>

text \<open>
  C2, as the specification states it, fails: the specification's chunk is the space-joined
  window itself, and \<open>chunk_text\<close> returns it trimmed. On the text \<open>" A."\<close> with
  \<open>chunk_size = 1\<close> and \<open>overlap = 0\<close> the specification's chunker gives \<open>" A."\<close> and
  \<open>chunk_text\<close> gives \<open>"A."\<close>.
\<close>

theorem chunk_text_untrimmed_counterexample:
  "chunk_text (ustr '' A.'') 1 0 = Some [ustr ''A.''] \<and>
   chunk_spec (ustr '' A.'') 1 0 = [ustr '' A.''] \<and>
   chunk_text (ustr '' A.'') 1 0 \<noteq> Some (chunk_spec (ustr '' A.'') 1 0)"
  by (simp add: chunk_text_terminates chunk_spec_sentences windows_def re_split_def ustr_def
      isspace_def is_terminal_def strip_def)

text \<open>
  C2, amended: for every text and every \<open>chunk_size > overlap \<ge> 0\<close>, \<open>chunk_text\<close> returns,
  and what it returns is the chunks of \<open>chunk_spec\<close> (the text cut into sentences
  immediately after \<open>.\<close>, \<open>!\<close> or \<open>?\<close> followed by whitespace, windows of \<open>chunk_size\<close>
  sentences joined by a space and advancing by \<open>chunk_size - overlap\<close>, the shorter windows
  at the end included, the chunks that are blank after trimming dropped), each with its
  leading and trailing whitespace trimmed.
\<close>

theorem chunk_text_refines_trimmed_spec:
  assumes "0 \<le> overlap" and "overlap < chunk_size"
  shows "chunk_text text chunk_size overlap =
    Some (map strip (chunk_spec text (nat chunk_size) (nat overlap)))"
  using assms by (rule chunk_text_terminates)

theorem chunk_text_refines_trimmed_spec_witness:
  "(0::int) \<le> 1 \<and> (1::int) < 3 \<and>
   chunk_text (ustr ''  Hi there. Go!   Why? No '') 3 1 =
     Some [ustr ''Hi there. Go! Why?'', ustr ''Why? No'']"
  using chunk_text_refines_trimmed_spec [of 1 3 "ustr ''  Hi there. Go!   Why? No ''"]
  by (simp add: chunk_spec_sentences windows_def re_split_def ustr_def
      isspace_def is_terminal_def strip_def)

text \<open>
  C3, as the specification states it, fails: the text \<open>"A. B. C. D. E."\<close> has five sentences,
  and with \<open>chunk_size = 2\<close> and \<open>overlap = 1\<close> the window that starts at the fifth sentence
  is emitted too, so the result is not the four chunks of the specification.
\<close>

theorem chunk_text_example_counterexample:
  "chunk_text (ustr ''A. B. C. D. E.'') 2 1 \<noteq>
     Some [ustr ''A. B.'', ustr ''B. C.'', ustr ''C. D.'', ustr ''D. E.'']"
  by (simp add: chunk_text_terminates chunk_spec_sentences windows_def re_split_def ustr_def
      isspace_def is_terminal_def strip_def)

text \<open>
  C3, amended: for the text \<open>"A. B. C. D. E."\<close> with \<open>chunk_size = 2\<close> and \<open>overlap = 1\<close>,
  \<open>chunk_text\<close> returns exactly the five chunks \<open>"A. B."\<close>, \<open>"B. C."\<close>, \<open>"C. D."\<close>,
  \<open>"D. E."\<close>, \<open>"E."\<close>.
\<close>

theorem chunk_text_example:
  "chunk_text (ustr ''A. B. C. D. E.'') 2 1 =
     Some [ustr ''A. B.'', ustr ''B. C.'', ustr ''C. D.'', ustr ''D. E.'', ustr ''E.'']"
  by (simp add: chunk_text_terminates chunk_spec_sentences windows_def re_split_def ustr_def
      isspace_def is_terminal_def strip_def)

text \<open>
  C4 asks that \<open>chunk_text\<close> with \<open>overlap \<ge> chunk_size\<close> either fails or terminates. It does
  neither: \<open>start\<close> never grows, the loop is never left. At the text \<open>"A."\<close> with
  \<open>chunk_size = 1\<close> and \<open>overlap = 1\<close> the call does not return.
\<close>

theorem chunk_text_overlap_not_below_size:
  "chunk_text (ustr ''A.'') 1 1 = None"
  by (rule chunk_text_diverges) simp

text \<open>
  C9, as the specification states it, fails twice. A text of whitespace only is not empty,
  and \<open>chunk_text\<close> returns no chunk for it: at \<open>" "\<close> with \<open>chunk_size = 1\<close> and
  \<open>overlap = 0\<close> the result is the empty list. And a sentence that begins or ends with
  whitespace is in no chunk as it stands, since the chunks are trimmed: the only sentence
  of \<open>" A."\<close> is \<open>" A."\<close>, the only chunk is \<open>"A."\<close>.
\<close>

theorem chunk_text_coverage_counterexample:
  "ustr '' '' \<noteq> [] \<and> chunk_text (ustr '' '') 1 0 = Some [] \<and>
   re_split (ustr '' A.'') = [ustr '' A.''] \<and>
   chunk_text (ustr '' A.'') 1 0 = Some [ustr ''A.''] \<and>
   \<not> sublist (ustr '' A.'') (ustr ''A.'')"
proof -
  have "\<not> sublist (ustr '' A.'') (ustr ''A.'')"
    by (auto dest: sublist_length_le simp: ustr_def)
  then show ?thesis
    by (simp add: chunk_text_terminates chunk_spec_sentences windows_def re_split_def ustr_def
      isspace_def is_terminal_def strip_def)
qed

text \<open>
  C9, amended: for every text with a character that is not whitespace and every
  \<open>chunk_size > overlap \<ge> 0\<close>, \<open>chunk_text\<close> returns a non-empty list of chunks, none of
  them blank, and every sentence of the text, trimmed of its leading and trailing
  whitespace, is a contiguous part of at least one chunk.
\<close>

theorem chunk_text_covers_sentences:
  assumes "0 \<le> overlap" and "overlap < chunk_size" and "\<exists>c\<in>set text. \<not> isspace c"
  shows "\<exists>chunks. chunk_text text chunk_size overlap = Some chunks \<and> chunks \<noteq> [] \<and>
           (\<forall>c\<in>set chunks. strip c \<noteq> []) \<and>
           (\<forall>s\<in>set (re_split text). \<exists>c\<in>set chunks. sublist (strip s) c)"
proof -
  from assms(3) obtain c where "c \<in> set text" "\<not> isspace c" by blast
  with assms(1,2) show ?thesis by (rule chunk_text_covers)
qed

theorem chunk_text_covers_sentences_witness:
  "(0::int) \<le> 1 \<and> (1::int) < 2 \<and> (\<exists>c\<in>set (ustr '' A. B? C ''). \<not> isspace c) \<and>
   (\<exists>chunks. chunk_text (ustr '' A. B? C '') 2 1 = Some chunks \<and> chunks \<noteq> [] \<and>
      (\<forall>c\<in>set chunks. strip c \<noteq> []) \<and>
      (\<forall>s\<in>set (re_split (ustr '' A. B? C '')). \<exists>c\<in>set chunks. sublist (strip s) c))"
proof -
  have h: "\<exists>c\<in>set (ustr '' A. B? C ''). \<not> isspace c"
    by (simp add: ustr_def isspace_def)
  have "(0::int) \<le> 1" and "(1::int) < 2" by simp_all
  from chunk_text_covers_sentences [OF this h] h show ?thesis by simp
qed

text \<open>
  C10: for every text and all parameters, every chunk that \<open>chunk_text\<close> returns is
  non-empty and equals its own trim; and the same holds of the chunks collected after any
  number \<open>n\<close> of rounds of the loop, whether the loop is ever left or not.
\<close>

theorem chunk_text_chunks_trimmed:
  "(\<forall>chunks. chunk_text text chunk_size overlap = Some chunks \<longrightarrow>
      (\<forall>c\<in>set chunks. c \<noteq> [] \<and> strip c = c)) \<and>
   (\<forall>c\<in>set (snd ((loop_body (re_split text) chunk_size overlap ^^ n) (0, []))).
      c \<noteq> [] \<and> strip c = c)"
proof (intro conjI allI impI)
  fix chunks
  assume "chunk_text text chunk_size overlap = Some chunks"
  then have "chunk_loop (re_split text) chunk_size overlap (0, []) = Some chunks"
    by (simp only: chunk_text_def)
  from chunk_loop_trimmed [OF this] show "\<forall>c\<in>set chunks. c \<noteq> [] \<and> strip c = c" by simp
next
  show "\<forall>c\<in>set (snd ((loop_body (re_split text) chunk_size overlap ^^ n) (0, []))).
      c \<noteq> [] \<and> strip c = c"
    by (rule loop_iterate_trimmed)
qed

theorem chunk_text_chunks_trimmed_witness:
  "chunk_text (ustr '' A. B? C '') 2 1 = Some [ustr ''A. B?'', ustr ''B? C'', ustr ''C''] \<and>
   strip (ustr ''A. B?'') = ustr ''A. B?'' \<and> strip (ustr ''B? C'') = ustr ''B? C'' \<and>
   strip (ustr ''C'') = ustr ''C''"
proof -
  have r: "chunk_text (ustr '' A. B? C '') 2 1 =
      Some [ustr ''A. B?'', ustr ''B? C'', ustr ''C'']"
    by (simp add: chunk_text_terminates chunk_spec_sentences windows_def re_split_def ustr_def
      isspace_def is_terminal_def strip_def)
  from chunk_text_chunks_trimmed [of "ustr '' A. B? C ''" 2 1 0] r
  have "\<forall>c\<in>set [ustr ''A. B?'', ustr ''B? C'', ustr ''C'']. c \<noteq> [] \<and> strip c = c"
    by blast
  with r show ?thesis by simp
qed

text \<open>
  C1, as the specification states it, fails: \<open>retrieve_docs\<close> works on whatever id mapping
  and chunk table were loaded. With an empty index, the id mapping \<open>{"-1": 0}\<close> and a chunk
  table with the row 0, the two labels \<open>-1\<close> that the search returns for \<open>top_k = 2\<close> are keys
  of the mapping, and the request returns two texts, more than \<open>min(top_k, index.count) = 0\<close>
  and not the empty result. With an index of one vector and the id mapping \<open>{"0": 7}\<close> on an
  empty chunk table the request raises \<open>KeyError\<close>.
\<close>

theorem retrieve_docs_top_k_counterexample:
  "index (load_app (\<lambda>column raw. Str raw) ([]::nat list) [(0, ustr ''a'')] [(ustr ''-1'', 0)]) = [] \<and>
   retrieve_docs (\<lambda>s. 0) (\<lambda>v. v) (\<lambda>q r. 0)
     (load_app (\<lambda>column raw. Str raw) ([]::nat list) [(0, ustr ''a'')] [(ustr ''-1'', 0)])
     (ustr ''q'') 2 = Inr (ustr ''a'' @ ustr [CHR 0x0A, CHR 0x0A] @ ustr ''a'') \<and>
   retrieve_docs (\<lambda>s. 0) (\<lambda>v. v) (\<lambda>q r. 0)
     (load_app (\<lambda>column raw. Str raw) [0::nat] [] [(ustr ''0'', 7)])
     (ustr ''q'') 1 = Inl KeyError"
  by (simp add: retrieve_docs_def load_app_def index_search_def json_load_def read_csv_def
      str_join_def str_int_def str_nat.simps ustr_def Let_def numeral_2_eq_2)

text \<open>
  C1, amended: for every query and every \<open>top_k > 0\<close>, on a context whose id mapping has only
  keys of positions of the index and only ids of rows of the chunk table that hold a text,
  \<open>retrieve_docs\<close> raises no error and returns the join of at most
  \<open>min(top_k, index.count)\<close> chunk texts; they are the texts of positions \<open>ps\<close> of the index
  that are ordered by descending similarity to the normalised query vector, ties by
  ascending position; on an empty index there is no text.
\<close>

theorem retrieve_docs_top_k:
  assumes "0 < top_k"
    and "dom (id_mapping ctx) \<subseteq> (\<lambda>i. str_int (int i)) ` {0..<length (index ctx)}"
    and "ran (id_mapping ctx) \<subseteq> {cid. \<exists>t. df ctx cid = Some (Str t)}"
  shows "\<exists>ps results.
     retrieve_docs encode l2_normalize score ctx query top_k =
       Inr (join (ustr [CHR 0x0A, CHR 0x0A]) results) \<and>
     length results \<le> min (nat top_k) (length (index ctx)) \<and>
     list_all2 (\<lambda>p t. \<exists>cid. id_mapping ctx (str_int (int p)) = Some cid \<and> df ctx cid = Some (Str t))
       ps results \<and>
     sorted_wrt (ranked_before (\<lambda>p. score (l2_normalize (encode query)) (index ctx ! p))) ps \<and>
     set ps \<subseteq> {0..<length (index ctx)} \<and>
     (index ctx = [] \<longrightarrow> results = [])"
proof (rule retrieve_docs_ranked [OF assms(1)])
  show "\<forall>key\<in>dom (id_mapping ctx). \<exists>i<length (index ctx). key = str_int (int i)"
    using assms(2) by fastforce
  show "\<forall>cid\<in>ran (id_mapping ctx). \<exists>t. df ctx cid = Some (Str t)"
    using assms(3) by auto
qed

theorem retrieve_docs_top_k_witness:
  "let chunks = [ustr ''A.'', ustr ''B.'']; encode = (\<lambda>s. length s); l2_normalize = (\<lambda>v. v);
       score = (\<lambda>q r. 0); infer = (\<lambda>column raw. Str raw);
       ctx = load_app infer (fst (build_faiss_index encode l2_normalize chunks))
         (fst (create_dataframe chunks)) (snd (create_dataframe chunks))
   in (0::int) < 1 \<and>
      dom (id_mapping ctx) \<subseteq> (\<lambda>i. str_int (int i)) ` {0..<length (index ctx)} \<and>
      ran (id_mapping ctx) \<subseteq> {cid. \<exists>t. df ctx cid = Some (Str t)} \<and>
      retrieve_docs encode l2_normalize score ctx (ustr ''A.'') 1 = Inr (ustr ''A.'') \<and>
      (\<exists>ps results.
         retrieve_docs encode l2_normalize score ctx (ustr ''A.'') 1 =
           Inr (join (ustr [CHR 0x0A, CHR 0x0A]) results) \<and>
         length results \<le> min (nat 1) (length (index ctx)) \<and>
         list_all2 (\<lambda>p t. \<exists>cid. id_mapping ctx (str_int (int p)) = Some cid \<and>
             df ctx cid = Some (Str t)) ps results \<and>
         sorted_wrt (ranked_before (\<lambda>p. score (l2_normalize (encode (ustr ''A.''))) (index ctx ! p)))
           ps \<and>
         set ps \<subseteq> {0..<length (index ctx)} \<and>
         (index ctx = [] \<longrightarrow> results = []))"
proof -
  define chunks where "chunks = [ustr ''A.'', ustr ''B.'']"
  define encode :: "pystr \<Rightarrow> nat" where "encode = (\<lambda>s. length s)"
  define l2_normalize :: "nat \<Rightarrow> nat" where "l2_normalize = (\<lambda>v. v)"
  define score :: "nat \<Rightarrow> nat \<Rightarrow> real" where "score = (\<lambda>q r. 0)"
  define infer :: "pystr list \<Rightarrow> pystr \<Rightarrow> cell" where "infer = (\<lambda>column raw. Str raw)"
  define ctx where "ctx = load_app infer (fst (build_faiss_index encode l2_normalize chunks))
         (fst (create_dataframe chunks)) (snd (create_dataframe chunks))"
  have len: "length (index ctx) = length chunks"
    unfolding ctx_def by (simp add: build_then_load(1))
  have h1: "(0::int) < 1" by simp
  have h2: "dom (id_mapping ctx) \<subseteq> (\<lambda>i. str_int (int i)) ` {0..<length (index ctx)}"
    unfolding len unfolding ctx_def by (simp only: build_then_load(2) subset_refl)
  have h3: "ran (id_mapping ctx) \<subseteq> {cid. \<exists>t. df ctx cid = Some (Str t)}"
  proof
    fix cid
    assume "cid \<in> ran (id_mapping ctx)"
    then obtain key where key: "id_mapping ctx key = Some cid" by (auto simp: ran_def)
    then have "key \<in> dom (id_mapping ctx)" by blast
    then obtain i where i: "i < length chunks" "key = str_int (int i)"
      unfolding ctx_def build_then_load(2) by auto
    with key have "cid = int i" unfolding ctx_def by (simp add: build_then_load(3))
    with i(1) have "df ctx cid = Some (infer chunks (chunks ! i))"
      unfolding ctx_def by (simp add: build_then_load(4))
    then show "cid \<in> {cid. \<exists>t. df ctx cid = Some (Str t)}" by (simp add: infer_def)
  qed
  have r: "retrieve_docs encode l2_normalize score ctx (ustr ''A.'') 1 = Inr (ustr ''A.'')"
    by (simp add: ctx_def chunks_def encode_def score_def l2_normalize_def infer_def
      retrieve_docs_def load_app_def build_faiss_index_def create_dataframe_def
      index_search_def json_load_def json_dump_def read_csv_def str_join_def
      str_int_def str_nat.simps ustr_def Let_def less_eq_prod_def)
  from retrieve_docs_top_k [OF h1 h2 h3, of encode l2_normalize score "ustr ''A.''"] h1 h2 h3 r
  show ?thesis
    unfolding Let_def chunks_def [symmetric] encode_def [symmetric] score_def [symmetric]
      l2_normalize_def [symmetric] infer_def [symmetric] ctx_def [symmetric]
    by (intro conjI)
qed

text \<open>
  C5, as the specification states it, fails: \<open>app.py\<close> loads the index, the chunk table and
  the id mapping one after the other and compares nothing. An index of one vector loaded
  with an empty id mapping and an empty chunk table is served: the request returns the empty
  context. With an id mapping that sends position 0 to the id 7, which the chunk table does
  not have, the load goes through as well, and it is the request that raises \<open>KeyError\<close>.
\<close>

theorem load_app_mismatch_counterexample:
  "length (index (load_app (\<lambda>column raw. Str raw) [1::nat] [] [])) = 1 \<and>
   dom (id_mapping (load_app (\<lambda>column raw. Str raw) [1::nat] [] [])) = {} \<and>
   retrieve_docs (\<lambda>s. 1) (\<lambda>v. v) (\<lambda>q r. 0) (load_app (\<lambda>column raw. Str raw) [1::nat] [] [])
     (ustr ''q'') 1 = Inr [] \<and>
   id_mapping (load_app (\<lambda>column raw. Str raw) [1::nat] [] [(ustr ''0'', 7)]) (ustr ''0'') = Some 7 \<and>
   df (load_app (\<lambda>column raw. Str raw) [1::nat] [] [(ustr ''0'', 7)]) 7 = None \<and>
   retrieve_docs (\<lambda>s. 1) (\<lambda>v. v) (\<lambda>q r. 0)
     (load_app (\<lambda>column raw. Str raw) [1::nat] [] [(ustr ''0'', 7)]) (ustr ''q'') 1 =
     Inl KeyError"
  by (simp add: retrieve_docs_def load_app_def index_search_def json_load_def read_csv_def
      str_join_def str_int_def str_nat.simps ustr_def Let_def)

text \<open>
  C5, amended: at load time the index, the chunk table and the id mapping are taken as
  they are, with no check of one against another; a mismatch shows at request time only: a
  request raises \<open>KeyError\<close> exactly when the index returns a position that the id mapping
  sends to an id that the chunk table does not have, and every other request is served.
\<close>

theorem load_app_unchecked:
  "index (load_app infer faiss_file csv_file mapping_file) = faiss_file \<and>
   df (load_app infer faiss_file csv_file mapping_file) = read_csv infer csv_file \<and>
   id_mapping (load_app infer faiss_file csv_file mapping_file) = json_load mapping_file \<and>
   (retrieve_docs encode l2_normalize score (load_app infer faiss_file csv_file mapping_file)
      query top_k = Inl KeyError) =
   (\<exists>idx\<in>set (index_search score faiss_file (l2_normalize (encode query)) (nat top_k)).
      \<exists>cid. json_load mapping_file (str_int idx) = Some cid \<and> read_csv infer csv_file cid = None)"
proof -
  let ?ctx = "load_app infer faiss_file csv_file mapping_file"
  let ?I = "index_search score faiss_file (l2_normalize (encode query)) (nat top_k)"
  have sel: "index ?ctx = faiss_file" "df ?ctx = read_csv infer csv_file"
    "id_mapping ?ctx = json_load mapping_file"
    by (simp_all add: load_app_def)
  have "(retrieve_docs encode l2_normalize score ?ctx query top_k = Inl KeyError) =
      (retrieve_rows ?ctx ?I = Inl KeyError)"
    by (auto simp: retrieve_docs_def Let_def sel str_join_def
        split: sum.splits option.splits dest: retrieve_rows_key_error)
  also have "\<dots> = (\<exists>idx\<in>set ?I. \<exists>cid. id_mapping ?ctx (str_int idx) = Some cid \<and>
      df ?ctx cid = None)"
    using retrieve_rows_error [of ?ctx ?I KeyError] retrieve_rows_dangling [of _ ?I ?ctx]
    by blast
  finally show ?thesis by (simp only: sel simp_thms)
qed

theorem load_app_unchecked_witness:
  "index (load_app (\<lambda>column raw. Str raw) [1::nat] [] [(ustr ''0'', 7)]) = [1] \<and>
   retrieve_docs (\<lambda>s. 1) (\<lambda>v. v) (\<lambda>q r. 0)
     (load_app (\<lambda>column raw. Str raw) [1::nat] [] [(ustr ''0'', 7)]) (ustr ''q'') 1 =
     Inl KeyError"
proof -
  have "\<exists>idx\<in>set (index_search (\<lambda>q r. 0) [1::nat] ((\<lambda>v. v) ((\<lambda>s. 1) (ustr ''q''))) (nat 1)).
      \<exists>cid. json_load [(ustr ''0'', 7)] (str_int idx) = Some cid \<and>
        read_csv (\<lambda>column raw. Str raw) [] cid = None"
    by (simp add: index_search_def json_load_def read_csv_def str_int_def str_nat.simps
        ustr_def Let_def)
  with load_app_unchecked [of "\<lambda>column raw. Str raw" "[1::nat]" "[]" "[(ustr ''0'', 7)]"
      "\<lambda>s. 1" "\<lambda>v. v" "\<lambda>q r. 0" "ustr ''q''" 1]
  show ?thesis by simp
qed

text \<open>
  C7: \<open>retrieve_docs\<close> joins the rows that \<open>retrieve_rows\<close> finds for the positions \<open>I\<close> that
  the index returns. For every such list of positions, the positions that are absent from
  the id mapping are skipped: the outcome is that of the list without them; when every id
  that the mapping gives is in the chunk table the rows of the positions that are present
  are returned, in their order; and an error is never due to an absent position: it is
  raised only for a position that the mapping sends to an id that the chunk table lacks,
  or, when the rows are joined, to a row whose cell is no string.
\<close>

theorem retrieve_skips_absent_positions:
  "retrieve_rows ctx I = retrieve_rows ctx (filter (\<lambda>idx. str_int idx \<in> dom (id_mapping ctx)) I) \<and>
   ((\<forall>idx\<in>set I. \<forall>cid. id_mapping ctx (str_int idx) = Some cid \<longrightarrow> cid \<in> dom (df ctx)) \<longrightarrow>
      (\<exists>results. retrieve_rows ctx I = Inr results \<and>
         list_all2 (\<lambda>idx t. \<exists>cid. id_mapping ctx (str_int idx) = Some cid \<and> df ctx cid = Some t)
           (filter (\<lambda>idx. str_int idx \<in> dom (id_mapping ctx)) I) results)) \<and>
   (\<forall>e. retrieve_rows ctx I = Inl e \<longrightarrow>
      (\<exists>idx\<in>set I. \<exists>cid. id_mapping ctx (str_int idx) = Some cid \<and> df ctx cid = None)) \<and>
   retrieve_docs encode l2_normalize score ctx query top_k =
     (case retrieve_rows ctx
         (index_search score (index ctx) (l2_normalize (encode query)) (nat top_k)) of
        Inl e \<Rightarrow> Inl e
      | Inr results \<Rightarrow> str_join (ustr [CHR 0x0A, CHR 0x0A]) results) \<and>
   (\<forall>e. retrieve_docs encode l2_normalize score ctx query top_k = Inl e \<longrightarrow>
      (\<exists>idx\<in>set (index_search score (index ctx) (l2_normalize (encode query)) (nat top_k)).
         \<exists>cid. id_mapping ctx (str_int idx) = Some cid \<and>
           (df ctx cid = None \<or> df ctx cid = Some NotStr)))"
proof (intro conjI allI impI)
  show "retrieve_rows ctx I = retrieve_rows ctx (filter (\<lambda>idx. str_int idx \<in> dom (id_mapping ctx)) I)"
    by (rule retrieve_rows_skips)
next
  assume "\<forall>idx\<in>set I. \<forall>cid. id_mapping ctx (str_int idx) = Some cid \<longrightarrow> cid \<in> dom (df ctx)"
  then show "\<exists>results. retrieve_rows ctx I = Inr results \<and>
         list_all2 (\<lambda>idx t. \<exists>cid. id_mapping ctx (str_int idx) = Some cid \<and> df ctx cid = Some t)
           (filter (\<lambda>idx. str_int idx \<in> dom (id_mapping ctx)) I) results"
    by (rule retrieve_rows_returns)
next
  fix e
  assume "retrieve_rows ctx I = Inl e"
  then show "\<exists>idx\<in>set I. \<exists>cid. id_mapping ctx (str_int idx) = Some cid \<and> df ctx cid = None"
    by (rule retrieve_rows_error)
next
  show "retrieve_docs encode l2_normalize score ctx query top_k =
     (case retrieve_rows ctx
         (index_search score (index ctx) (l2_normalize (encode query)) (nat top_k)) of
        Inl e \<Rightarrow> Inl e
      | Inr results \<Rightarrow> str_join (ustr [CHR 0x0A, CHR 0x0A]) results)"
    by (simp add: retrieve_docs_def Let_def)
next
  fix e
  let ?I = "index_search score (index ctx) (l2_normalize (encode query)) (nat top_k)"
  assume a: "retrieve_docs encode l2_normalize score ctx query top_k = Inl e"
  show "\<exists>idx\<in>set ?I. \<exists>cid. id_mapping ctx (str_int idx) = Some cid \<and>
           (df ctx cid = None \<or> df ctx cid = Some NotStr)"
  proof (cases "retrieve_rows ctx ?I")
    case (Inl e')
    from retrieve_rows_error [OF this] show ?thesis by blast
  next
    case (Inr results)
    with a have "str_items results = None"
      by (auto simp: retrieve_docs_def Let_def str_join_def split: option.splits)
    then have "NotStr \<in> set results" by (rule str_items_None)
    from retrieve_rows_cells [OF Inr this] show ?thesis by blast
  qed
qed

theorem retrieve_skips_absent_positions_witness:
  "retrieve_rows \<lparr>index = ([]::nat list), df = [0 \<mapsto> Str (ustr ''a'')], id_mapping = [ustr ''0'' \<mapsto> 0]\<rparr>
     [5, 0, - 1] =
     retrieve_rows \<lparr>index = ([]::nat list), df = [0 \<mapsto> Str (ustr ''a'')], id_mapping = [ustr ''0'' \<mapsto> 0]\<rparr>
       [0] \<and>
   retrieve_rows \<lparr>index = ([]::nat list), df = [0 \<mapsto> Str (ustr ''a'')], id_mapping = [ustr ''0'' \<mapsto> 0]\<rparr>
     [5, 0, - 1] = Inr [Str (ustr ''a'')]"
proof -
  let ?ctx = "\<lparr>index = ([]::nat list), df = [0 \<mapsto> Str (ustr ''a'')], id_mapping = [ustr ''0'' \<mapsto> 0]\<rparr>"
  have s: "str_int 5 = ustr ''5''" "str_int 0 = ustr ''0''" "str_int (- 1) = ustr ''-1''"
    by (simp_all add: str_int_def str_nat.simps ustr_def)
  have f: "filter (\<lambda>idx. str_int idx \<in> dom (id_mapping ?ctx)) [5, 0, - 1] = [0]"
    by (simp add: s) (simp add: ustr_def)
  have r: "retrieve_rows ?ctx [0] = Inr [Str (ustr ''a'')]"
    by (simp add: s)
  have "retrieve_rows ?ctx [5, 0, - 1] =
      retrieve_rows ?ctx (filter (\<lambda>idx. str_int idx \<in> dom (id_mapping ?ctx)) [5, 0, - 1])"
    using retrieve_skips_absent_positions [of ?ctx "[5, 0, - 1]"] by (rule conjunct1)
  then have "retrieve_rows ?ctx [5, 0, - 1] = retrieve_rows ?ctx [0]" by (simp only: f)
  with r show ?thesis by (simp only: simp_thms)
qed

text \<open>
  C8: for every list of chunks, \<open>create_dataframe\<close> writes the id mapping of the positions
  \<open>0..<count\<close> to themselves, its keys the decimal strings of the positions, and the chunk
  table of the ids \<open>0..<count\<close>; \<open>build_faiss_index\<close> puts the normalised vectors of the
  chunks into a fresh index in the order of the chunks. So in the context loaded from them
  the keys of the id mapping are the positions below the count of the index, every position
  is mapped to itself, and every id of the mapping is the id of a row of the chunk table:
  the row that holds what \<open>pd.read_csv\<close> makes of that chunk's text.
\<close>

theorem build_identity_mapping:
  "snd (create_dataframe chunks) = map (\<lambda>i. (str_int (int i), int i)) [0..<length chunks] \<and>
   fst (build_faiss_index encode l2_normalize chunks) = map (\<lambda>c. l2_normalize (encode c)) chunks \<and>
   (let ctx = load_app infer (fst (build_faiss_index encode l2_normalize chunks))
        (fst (create_dataframe chunks)) (snd (create_dataframe chunks))
    in length (index ctx) = length chunks \<and>
       dom (id_mapping ctx) = (\<lambda>i. str_int (int i)) ` {0..<length (index ctx)} \<and>
       (\<forall>i<length chunks. id_mapping ctx (str_int (int i)) = Some (int i) \<and>
          df ctx (int i) = Some (infer chunks (chunks ! i))) \<and>
       ran (id_mapping ctx) \<subseteq> dom (df ctx))"
proof -
  have 1: "snd (create_dataframe chunks) = map (\<lambda>i. (str_int (int i), int i)) [0..<length chunks]"
    by (simp add: create_dataframe_def json_dump_def Let_def)
  have 2: "fst (build_faiss_index encode l2_normalize chunks) =
      map (\<lambda>c. l2_normalize (encode c)) chunks"
    by (simp add: build_faiss_index_def Let_def)
  let ?ctx = "load_app infer (fst (build_faiss_index encode l2_normalize chunks))
        (fst (create_dataframe chunks)) (snd (create_dataframe chunks))"
  have 3: "length (index ?ctx) = length chunks" by (simp add: build_then_load(1))
  have 4: "dom (id_mapping ?ctx) = (\<lambda>i. str_int (int i)) ` {0..<length (index ?ctx)}"
    by (simp only: 3 build_then_load(2))
  have 5: "\<forall>i<length chunks. id_mapping ?ctx (str_int (int i)) = Some (int i) \<and>
          df ?ctx (int i) = Some (infer chunks (chunks ! i))"
    by (simp add: build_then_load(3,4))
  have 6: "ran (id_mapping ?ctx) \<subseteq> dom (df ?ctx)" by (rule build_then_load(5))
  from 1 2 3 4 5 6 show ?thesis unfolding Let_def by (intro conjI)
qed

theorem build_identity_mapping_witness:
  "snd (create_dataframe [ustr ''A. B.'', ustr ''NA'']) = [(ustr ''0'', 0), (ustr ''1'', 1)] \<and>
   id_mapping (load_app (\<lambda>column raw. if raw = ustr ''NA'' then NotStr else Str raw)
        (fst (build_faiss_index (\<lambda>s. length s) (\<lambda>v. v) [ustr ''A. B.'', ustr ''NA'']))
        (fst (create_dataframe [ustr ''A. B.'', ustr ''NA'']))
        (snd (create_dataframe [ustr ''A. B.'', ustr ''NA'']))) (ustr ''1'') = Some 1 \<and>
   df (load_app (\<lambda>column raw. if raw = ustr ''NA'' then NotStr else Str raw)
        (fst (build_faiss_index (\<lambda>s. length s) (\<lambda>v. v) [ustr ''A. B.'', ustr ''NA'']))
        (fst (create_dataframe [ustr ''A. B.'', ustr ''NA'']))
        (snd (create_dataframe [ustr ''A. B.'', ustr ''NA'']))) 1 = Some NotStr"
proof -
  let ?chunks = "[ustr ''A. B.'', ustr ''NA'']"
  let ?infer = "\<lambda>(column::pystr list) raw. if raw = ustr ''NA'' then NotStr else Str raw"
  let ?ctx = "load_app ?infer (fst (build_faiss_index (\<lambda>s. length s) (\<lambda>v. v) ?chunks))
        (fst (create_dataframe ?chunks)) (snd (create_dataframe ?chunks))"
  have s: "str_int (int 1) = ustr ''1''" "str_int (int 0) = ustr ''0''"
    by (simp_all add: str_int_def str_nat.simps ustr_def)
  from build_identity_mapping [of ?chunks "\<lambda>s. length s" "\<lambda>v. v" ?infer]
  have a: "snd (create_dataframe ?chunks) = map (\<lambda>i. (str_int (int i), int i)) [0..<length ?chunks]"
    and b: "\<forall>i<length ?chunks. id_mapping ?ctx (str_int (int i)) = Some (int i) \<and>
          df ?ctx (int i) = Some (?infer ?chunks (?chunks ! i))"
    unfolding Let_def by blast+
  have "(1::nat) < length ?chunks" by simp
  with b have "id_mapping ?ctx (str_int (int 1)) = Some (int 1) \<and>
      df ?ctx (int 1) = Some (?infer ?chunks (?chunks ! 1))"
    by blast
  moreover have "[0..<length ?chunks] = [0, 1]" by (simp add: upt_rec)
  ultimately show ?thesis using a s by simp
qed

end
